theory Spec2Isabelle
  imports Main
begin

section \<open>Policy-based Singleton (src/main.cpp)\<close>

text \<open>
  The program is one class template, \<open>Singleton<T, CreationPolicy, ThreadingModel>\<close>, with
  a static pointer \<open>ptr_\<close> per instantiation, the creation policy \<open>DefaultCreation\<close> and
  the threading models \<open>SingleThreaded\<close> and \<open>MultiThreaded\<close>. The model is sequential:
  one thread, explicit state passing. An instantiation is identified by a key of type
  \<open>'k\<close>; a program maps each key to the template arguments of that instantiation.
\<close>

subsection \<open>Values, errors, events\<close>

type_synonym addr = nat

text \<open>
  A \<open>T*\<close> is an \<open>addr option\<close>, \<open>None\<close> being \<open>nullptr\<close>. What ends a call other than
  by returning is an error value: an exception thrown by \<open>Create\<close>, the indirection
  through a null pointer of \<open>GetMutexIfAny\<close>, or locking a mutex that the caller already
  holds.
\<close>

datatype error = ConstructionError | NullDereference | LockError

datatype threading_model = SingleThreaded | MultiThreaded

datatype mutex_state = Unlocked | Locked

text \<open>
  The only mutex of the program: the local static \<open>mtx\<close> of \<open>MultiThreaded::GetMutex\<close>.
  It is initialised statically (the constructor of \<open>std::mutex\<close> is \<open>constexpr\<close>), so it is
  there and unlocked before any call, and nothing destroys it.
\<close>

datatype mutex_ref = MultiThreaded_mtx

text \<open>
  What \<open>std::atexit\<close> registers, the \<open>Destroy\<close> of an instantiation, and the log of the
  calls made to the creation policies.
\<close>

datatype 'k exit_action = Handler 'k

datatype 'k event =
    Create_call 'k
  | Destroy_call 'k "addr option"

subsection \<open>Creation policies\<close>

text \<open>
  A creation policy acts on a store of type \<open>'h\<close>. \<open>Create\<close> either throws or returns the
  address of a new object, with the store after the call; \<open>Destroy\<close> takes the pointer it
  is given, which may be null.
\<close>

record 'h creation_policy =
  Create :: "'h \<Rightarrow> (error + addr) \<times> 'h"
  Destroy :: "addr option \<Rightarrow> 'h \<Rightarrow> 'h"

text \<open>
  The free store behind \<open>new\<close> and \<open>delete\<close>: the live objects, the next address to hand
  out, and how many objects fit (\<open>new\<close> throws once the store is full). \<open>corrupt\<close> records
  a \<open>delete\<close> of a pointer that is neither null nor live.
\<close>

record heap =
  live :: "addr list"
  next_addr :: addr
  capacity :: nat
  corrupt :: bool

definition new_object :: "heap \<Rightarrow> (error + addr) \<times> heap" where
  "new_object h =
     (if length (live h) < capacity h
      then (Inr (next_addr h), h\<lparr>live := next_addr h # live h, next_addr := next_addr h + 1\<rparr>)
      else (Inl ConstructionError, h))"

fun delete_object :: "addr option \<Rightarrow> heap \<Rightarrow> heap" where
  "delete_object None h = h"
| "delete_object (Some p) h =
     (if p \<in> set (live h) then h\<lparr>live := removeAll p (live h)\<rparr> else h\<lparr>corrupt := True\<rparr>)"

text \<open>
  \<open>DefaultCreation<T>\<close>: \<open>Create\<close> is \<open>new T()\<close>, \<open>Destroy(p)\<close> is \<open>delete p\<close>. The
  constructor and destructor of \<open>T\<close> do nothing, as those of \<open>Logger\<close>: \<open>new T()\<close> fails
  only for want of memory.
\<close>

definition DefaultCreation :: "heap creation_policy" where
  "DefaultCreation = \<lparr>Create = new_object, Destroy = delete_object\<rparr>"

subsection \<open>The process state\<close>

record 'h singleton =
  CreationPolicy :: "'h creation_policy"
  ThreadingModel :: threading_model

text \<open>
  \<open>ptr\<close> holds the static \<open>ptr_\<close> of every instantiation, \<open>mtx\<close> the state of the one
  mutex, \<open>exit_list\<close> the registered exit actions, most recent first.
\<close>

record ('k, 'h) process =
  ptr :: "'k \<Rightarrow> addr option"
  mtx :: mutex_state
  exit_list :: "'k exit_action list"
  store :: 'h
  trace :: "'k event list"

text \<open>
  Static initialisation: every \<open>ptr_\<close> is \<open>nullptr\<close>, the mutex is unlocked, nothing is
  registered.
\<close>

definition init :: "'h \<Rightarrow> ('k, 'h) process" where
  "init h = \<lparr>ptr = (\<lambda>k. None), mtx = Unlocked, exit_list = [], store = h, trace = []\<rparr>"

subsection \<open>Threading models\<close>

text \<open>\<open>SingleThreaded::Lock(...)\<close> takes any arguments and does nothing.\<close>

definition SingleThreaded_Lock :: "'a \<Rightarrow> ('k, 'h) process \<Rightarrow> error + ('k, 'h) process" where
  "SingleThreaded_Lock args s = Inr s"

text \<open>\<open>MultiThreaded::Lock(m)\<close> constructs a \<open>lock_guard\<close> on \<open>m\<close>; its destructor unlocks.\<close>

definition MultiThreaded_Lock :: "mutex_ref \<Rightarrow> ('k, 'h) process \<Rightarrow> error + ('k, 'h) process" where
  "MultiThreaded_Lock m s =
     (case mtx s of Unlocked \<Rightarrow> Inr (s\<lparr>mtx := Locked\<rparr>) | Locked \<Rightarrow> Inl LockError)"

definition MultiThreaded_Unlock :: "mutex_ref \<Rightarrow> ('k, 'h) process \<Rightarrow> ('k, 'h) process" where
  "MultiThreaded_Unlock m s = s\<lparr>mtx := Unlocked\<rparr>"

text \<open>
  \<open>MultiThreaded::GetMutex\<close> returns a reference to its local static: every call returns
  the same mutex and changes nothing.
\<close>

definition GetMutex :: "('k, 'h) process \<Rightarrow> mutex_ref \<times> ('k, 'h) process" where
  "GetMutex s = (MultiThreaded_mtx, s)"

subsection \<open>Singleton\<close>

text \<open>
  \<open>GetMutexIfAny\<close>: the mutex of \<open>MultiThreaded\<close>, and for any other threading model the
  result of \<open>*(static_cast<std::mutex*>(nullptr))\<close>.
\<close>

definition GetMutexIfAny ::
  "threading_model \<Rightarrow> ('k, 'h) process \<Rightarrow> error + mutex_ref \<times> ('k, 'h) process" where
  "GetMutexIfAny tm s =
     (case tm of MultiThreaded \<Rightarrow> Inr (GetMutex s) | SingleThreaded \<Rightarrow> Inl NullDereference)"

definition Lock_ctor ::
  "threading_model \<Rightarrow> mutex_ref \<Rightarrow> ('k, 'h) process \<Rightarrow> error + ('k, 'h) process" where
  "Lock_ctor tm m s =
     (case tm of SingleThreaded \<Rightarrow> SingleThreaded_Lock m s | MultiThreaded \<Rightarrow> MultiThreaded_Lock m s)"

definition Lock_dtor ::
  "threading_model \<Rightarrow> mutex_ref \<Rightarrow> ('k, 'h) process \<Rightarrow> ('k, 'h) process" where
  "Lock_dtor tm m s = (case tm of SingleThreaded \<Rightarrow> s | MultiThreaded \<Rightarrow> MultiThreaded_Unlock m s)"

text \<open>
  \<open>Singleton::Instance\<close>. The guard is taken first and released on every way out, also
  when \<open>Create\<close> throws. \<open>std::atexit\<close> is taken to succeed.
\<close>

definition Instance ::
  "('k \<Rightarrow> 'h singleton) \<Rightarrow> 'k \<Rightarrow> ('k, 'h) process \<Rightarrow> (error + addr) \<times> ('k, 'h) process" where
  "Instance prog k s =
     (case GetMutexIfAny (ThreadingModel (prog k)) s of
        Inl e \<Rightarrow> (Inl e, s)
      | Inr (m, s1) \<Rightarrow>
          (case Lock_ctor (ThreadingModel (prog k)) m s1 of
             Inl e \<Rightarrow> (Inl e, s1)
           | Inr s2 \<Rightarrow>
               (case ptr s2 k of
                  Some p \<Rightarrow> (Inr p, Lock_dtor (ThreadingModel (prog k)) m s2)
                | None \<Rightarrow>
                    (case Create (CreationPolicy (prog k)) (store s2) of
                       (Inl e, h) \<Rightarrow>
                         (Inl e, Lock_dtor (ThreadingModel (prog k)) m
                            (s2\<lparr>store := h, trace := trace s2 @ [Create_call k]\<rparr>))
                     | (Inr p, h) \<Rightarrow>
                         (Inr p, Lock_dtor (ThreadingModel (prog k)) m
                            (s2\<lparr>ptr := (ptr s2)(k \<mapsto> p),
                                exit_list := Handler k # exit_list s2,
                                store := h,
                                trace := trace s2 @ [Create_call k]\<rparr>))))))"

text \<open>\<open>Singleton::Destroy\<close>: hand \<open>ptr_\<close> to the policy, then reset it.\<close>

definition Singleton_Destroy ::
  "('k \<Rightarrow> 'h singleton) \<Rightarrow> 'k \<Rightarrow> ('k, 'h) process \<Rightarrow> ('k, 'h) process" where
  "Singleton_Destroy prog k s =
     s\<lparr>ptr := (ptr s)(k := None),
       store := Destroy (CreationPolicy (prog k)) (ptr s k) (store s),
       trace := trace s @ [Destroy_call k (ptr s k)]\<rparr>"

subsection \<open>Process lifetime\<close>

text \<open>
  A client calls \<open>Instance\<close> for the instantiations of a list, in order. It catches the
  exception of a failed construction and goes on; the two other errors are undefined
  behaviour, after which nothing is said about the process.
\<close>

fun run ::
  "('k \<Rightarrow> 'h singleton) \<Rightarrow> 'k list \<Rightarrow> ('k, 'h) process \<Rightarrow> error + ('k, 'h) process" where
  "run prog [] s = Inr s"
| "run prog (k # ks) s =
     (case Instance prog k s of
        (Inr p, s') \<Rightarrow> run prog ks s'
      | (Inl ConstructionError, s') \<Rightarrow> run prog ks s'
      | (Inl e, s') \<Rightarrow> Inl e)"

text \<open>Normal process exit runs the registered actions, the most recently registered first.\<close>

fun run_exit_action :: "('k \<Rightarrow> 'h singleton) \<Rightarrow> 'k exit_action \<Rightarrow> ('k, 'h) process \<Rightarrow> ('k, 'h) process" where
  "run_exit_action prog (Handler k) s = Singleton_Destroy prog k s"

definition exit_process :: "('k \<Rightarrow> 'h singleton) \<Rightarrow> ('k, 'h) process \<Rightarrow> ('k, 'h) process" where
  "exit_process prog s = foldl (\<lambda>t a. run_exit_action prog a t) (s\<lparr>exit_list := []\<rparr>) (exit_list s)"

text \<open>
  For the teardown of one slot: the state in which its handler starts (the handlers
  registered after it have run), and the handlers that run after it.
\<close>

definition before_teardown ::
  "('k \<Rightarrow> 'h singleton) \<Rightarrow> 'k \<Rightarrow> ('k, 'h) process \<Rightarrow> ('k, 'h) process" where
  "before_teardown prog k s =
     foldl (\<lambda>t a. run_exit_action prog a t) (s\<lparr>exit_list := []\<rparr>)
       (takeWhile (\<lambda>a. a \<noteq> Handler k) (exit_list s))"

definition handlers_after :: "'k \<Rightarrow> ('k, 'h) process \<Rightarrow> 'k exit_action list" where
  "handlers_after k s = tl (dropWhile (\<lambda>a. a \<noteq> Handler k) (exit_list s))"

subsection \<open>Observations on a trace and on the exit list\<close>

definition Create_calls :: "'k \<Rightarrow> 'k event list \<Rightarrow> 'k event list" where
  "Create_calls k tr = filter (\<lambda>e. e = Create_call k) tr"

fun event_slot :: "'k event \<Rightarrow> 'k option" where
  "event_slot (Create_call k) = Some k"
| "event_slot (Destroy_call k p) = Some k"

definition events_of :: "'k \<Rightarrow> 'k event list \<Rightarrow> 'k event list" where
  "events_of k tr = filter (\<lambda>e. event_slot e = Some k) tr"

definition handlers_of :: "'k \<Rightarrow> 'k exit_action list \<Rightarrow> 'k exit_action list" where
  "handlers_of k acts = filter (\<lambda>a. a = Handler k) acts"

fun is_Destroy_of :: "'k \<Rightarrow> 'k event \<Rightarrow> bool" where
  "is_Destroy_of k (Destroy_call k' p) = (k' = k)"
| "is_Destroy_of k (Create_call k') = False"

definition Destroy_calls :: "'k \<Rightarrow> 'k event list \<Rightarrow> 'k event list" where
  "Destroy_calls k tr = filter (is_Destroy_of k) tr"

subsection \<open>The states of a lifetime\<close>

text \<open>
  The states a process goes through: the initial state, then (\<open>rest_of_life\<close>) the
  state after each call of the run and the state after each exit action; the list ends
  where the run meets undefined behaviour. \<open>slot_history\<close> reads one slot along such a
  list.
\<close>

fun run_states ::
  "('k \<Rightarrow> 'h singleton) \<Rightarrow> 'k list \<Rightarrow> ('k, 'h) process \<Rightarrow> ('k, 'h) process list" where
  "run_states prog [] s = []"
| "run_states prog (k # ks) s =
     (case Instance prog k s of
        (Inr p, s') \<Rightarrow> s' # run_states prog ks s'
      | (Inl ConstructionError, s') \<Rightarrow> s' # run_states prog ks s'
      | (Inl e, s') \<Rightarrow> [])"

fun exit_states ::
  "('k \<Rightarrow> 'h singleton) \<Rightarrow> 'k exit_action list \<Rightarrow> ('k, 'h) process \<Rightarrow> ('k, 'h) process list" where
  "exit_states prog [] s = []"
| "exit_states prog (a # acts) s =
     run_exit_action prog a s # exit_states prog acts (run_exit_action prog a s)"

definition rest_of_life :: "('k \<Rightarrow> 'h singleton) \<Rightarrow> 'k list \<Rightarrow> ('k, 'h) process \<Rightarrow> ('k, 'h) process list" where
  "rest_of_life prog ks s =
     run_states prog ks s @
     (case run prog ks s of
        Inl e \<Rightarrow> []
      | Inr t \<Rightarrow> exit_states prog (exit_list t) (t\<lparr>exit_list := []\<rparr>))"

definition lifetime :: "('k \<Rightarrow> 'h singleton) \<Rightarrow> 'k list \<Rightarrow> 'h \<Rightarrow> ('k, 'h) process list" where
  "lifetime prog ks h = init h # rest_of_life prog ks (init h)"

definition slot_history :: "'k \<Rightarrow> ('k, 'h) process list \<Rightarrow> addr option list" where
  "slot_history k states = map (\<lambda>s. ptr s k) states"

subsection \<open>Invariants\<close>

text \<open>
  \<open>consistent\<close>: the exit list holds no handler twice and a teardown handler for exactly
  the occupied slots, and the mutex is not held. \<open>heap_ok\<close> and \<open>live_slots\<close>: the free store has seen no
  bad \<open>delete\<close>, hands out addresses above the live ones, every occupant is live, and no
  two slots hold the same object.
\<close>

definition consistent :: "('k, 'h) process \<Rightarrow> bool" where
  "consistent s \<longleftrightarrow>
     distinct (exit_list s) \<and>
     (\<forall>k. Handler k \<in> set (exit_list s) \<longleftrightarrow> ptr s k \<noteq> None) \<and>
     mtx s = Unlocked"

definition heap_ok :: "heap \<Rightarrow> bool" where
  "heap_ok h \<longleftrightarrow> \<not> corrupt h \<and> (\<forall>a \<in> set (live h). a < next_addr h)"

definition live_slots :: "('k, heap) process \<Rightarrow> bool" where
  "live_slots s \<longleftrightarrow>
     heap_ok (store s) \<and>
     (\<forall>k p. ptr s k = Some p \<longrightarrow> p \<in> set (live (store s))) \<and>
     (\<forall>k k' p. ptr s k = Some p \<longrightarrow> ptr s k' = Some p \<longrightarrow> k = k')"

subsection \<open>The instantiations of the source\<close>

text \<open>
  \<open>LoggerSingleton\<close> is \<open>Singleton<Logger, DefaultCreation, MultiThreaded>\<close>;
  \<open>Singleton_default\<close> has the default template arguments, \<open>DefaultCreation\<close> and
  \<open>SingleThreaded\<close>. \<open>every c\<close> is the program whose instantiations all have the
  template arguments \<open>c\<close>.
\<close>

definition LoggerSingleton :: "heap singleton" where
  "LoggerSingleton = \<lparr>CreationPolicy = DefaultCreation, ThreadingModel = MultiThreaded\<rparr>"

definition Singleton_default :: "heap singleton" where
  "Singleton_default = \<lparr>CreationPolicy = DefaultCreation, ThreadingModel = SingleThreaded\<rparr>"

definition every :: "'h singleton \<Rightarrow> 'k \<Rightarrow> 'h singleton" where
  "every c k = c"

definition empty_heap :: "nat \<Rightarrow> heap" where
  "empty_heap n = \<lparr>live = [], next_addr = 1, capacity = n, corrupt = False\<rparr>"

section \<open>Properties\<close>

lemmas Instance_defs = Instance_def GetMutexIfAny_def GetMutex_def Lock_ctor_def Lock_dtor_def
  MultiThreaded_Lock_def MultiThreaded_Unlock_def SingleThreaded_Lock_def

lemmas Instance_splits = threading_model.splits mutex_state.splits option.splits sum.splits
  prod.splits if_splits

lemmas example_defs = every_def LoggerSingleton_def Singleton_default_def empty_heap_def
  DefaultCreation_def new_object_def init_def

subsection \<open>One call of \<open>Instance\<close>\<close>

lemma Instance_occupied:
  "ThreadingModel (prog k) = MultiThreaded \<Longrightarrow> mtx s = Unlocked \<Longrightarrow> ptr s k = Some p \<Longrightarrow>
     Instance prog k s = (Inr p, s)"
  by (simp add: Instance_defs)

lemma Instance_SingleThreaded:
  "ThreadingModel (prog k) = SingleThreaded \<Longrightarrow> Instance prog k s = (Inl NullDereference, s)"
  by (simp add: Instance_def GetMutexIfAny_def)

lemma Instance_returns_MultiThreaded:
  "Instance prog k s = (r, s') \<Longrightarrow> r \<noteq> Inl NullDereference \<Longrightarrow>
     ThreadingModel (prog k) = MultiThreaded"
  by (cases "ThreadingModel (prog k)") (auto simp: Instance_SingleThreaded)

lemma Instance_unlocked:
  "Instance prog k s = (r, s') \<Longrightarrow> r \<noteq> Inl NullDereference \<Longrightarrow> r \<noteq> Inl LockError \<Longrightarrow>
     mtx s' = Unlocked"
  by (auto simp: Instance_defs split: Instance_splits)

lemma Instance_returned_ptr:
  "Instance prog k s = (Inr p, s') \<Longrightarrow> ptr s' k = Some p"
  by (auto simp: Instance_defs split: Instance_splits)

lemma Instance_keeps_occupant:
  "ptr s k = Some p \<Longrightarrow> ptr (snd (Instance prog k' s)) k = Some p"
  by (auto simp: Instance_defs split: Instance_splits)

lemma Instance_other_ptr:
  "k' \<noteq> k \<Longrightarrow> ptr (snd (Instance prog k s)) k' = ptr s k'"
  by (auto simp: Instance_defs split: Instance_splits)

lemma Instance_no_Create:
  "ptr s k \<noteq> None \<or> k' \<noteq> k \<Longrightarrow>
     Create_calls k (trace (snd (Instance prog k' s))) = Create_calls k (trace s)"
  by (auto simp: Instance_defs Create_calls_def split: Instance_splits)


subsection \<open>A run of calls\<close>

lemma run_Cons_Inr:
  "run prog (k # ks) s = Inr s2 \<Longrightarrow>
     \<exists>r s1. Instance prog k s = (r, s1) \<and> r \<noteq> Inl NullDereference \<and> r \<noteq> Inl LockError \<and>
            run prog ks s1 = Inr s2"
  by (auto split: prod.splits sum.splits error.splits)

lemma run_keeps_occupant:
  "run prog ks s = Inr s' \<Longrightarrow> ptr s k = Some p \<Longrightarrow> ptr s' k = Some p"
proof (induction ks arbitrary: s)
  case Nil
  then show ?case by simp
next
  case (Cons k' ks)
  obtain r s1 where
    step: "Instance prog k' s = (r, s1)" and rest: "run prog ks s1 = Inr s'"
    using run_Cons_Inr [OF Cons.prems(1)] by auto
  have "ptr s1 k = Some p"
    using Instance_keeps_occupant [OF Cons.prems(2), of prog k'] step by simp
  with rest show ?case by (rule Cons.IH)
qed

lemma run_unlocked:
  "run prog ks s = Inr s' \<Longrightarrow> mtx s = Unlocked \<Longrightarrow> mtx s' = Unlocked"
proof (induction ks arbitrary: s)
  case Nil
  then show ?case by simp
next
  case (Cons k' ks)
  obtain r s1 where
    step: "Instance prog k' s = (r, s1)" and ok: "r \<noteq> Inl NullDereference" "r \<noteq> Inl LockError"
    and rest: "run prog ks s1 = Inr s'"
    using run_Cons_Inr [OF Cons.prems(1)] by auto
  have "mtx s1 = Unlocked" using step ok by (rule Instance_unlocked)
  with rest show ?case by (rule Cons.IH)
qed

lemma Instance_cached:
  assumes first: "Instance prog k s = (Inr p, s1)"
    and between: "run prog ks s1 = Inr s2"
  shows "Instance prog k s2 = (Inr p, s2)"
proof -
  have tm: "ThreadingModel (prog k) = MultiThreaded"
    using first by (rule Instance_returns_MultiThreaded) simp
  have "mtx s1 = Unlocked" using first by (rule Instance_unlocked) simp_all
  then have m: "mtx s2 = Unlocked" by (rule run_unlocked [OF between])
  have "ptr s1 k = Some p" using first by (rule Instance_returned_ptr)
  then have "ptr s2 k = Some p" by (rule run_keeps_occupant [OF between])
  with tm m show ?thesis by (rule Instance_occupied)
qed


lemma run_untouched:
  "run prog ks s = Inr s' \<Longrightarrow> k \<notin> set ks \<Longrightarrow>
     ptr s' k = ptr s k \<and> Create_calls k (trace s') = Create_calls k (trace s)"
proof (induction ks arbitrary: s)
  case Nil
  then show ?case by simp
next
  case (Cons k' ks)
  obtain r s1 where
    step: "Instance prog k' s = (r, s1)" and rest: "run prog ks s1 = Inr s'"
    using run_Cons_Inr [OF Cons.prems(1)] by auto
  from Cons.prems(2) have ne: "k \<noteq> k'" and notin: "k \<notin> set ks" by auto
  have a: "ptr s1 k = ptr s k"
    using Instance_other_ptr [of k k' prog s] ne step by simp
  have b: "Create_calls k (trace s1) = Create_calls k (trace s)"
    using Instance_no_Create [of s k k' prog] ne step by auto
  from Cons.IH [OF rest notin] a b show ?case by simp
qed




subsection \<open>Invariants of a run\<close>

lemma consistent_init: "consistent (init h)"
  by (simp add: consistent_def init_def)

lemma Instance_consistent:
  "consistent s \<Longrightarrow> consistent (snd (Instance prog k s))"
  unfolding consistent_def
  by (auto simp: Instance_defs split: Instance_splits)

lemma run_consistent:
  "run prog ks s = Inr s' \<Longrightarrow> consistent s \<Longrightarrow> consistent s'"
proof (induction ks arbitrary: s)
  case Nil
  then show ?case by simp
next
  case (Cons k ks)
  obtain r s1 where
    step: "Instance prog k s = (r, s1)" and rest: "run prog ks s1 = Inr s'"
    using run_Cons_Inr [OF Cons.prems(1)] by auto
  have "consistent s1"
    using Instance_consistent [OF Cons.prems(2), of prog k] step by simp
  with rest show ?case by (rule Cons.IH)
qed

lemma Instance_trace_others:
  "Destroy_calls k (trace (snd (Instance prog k' s))) = Destroy_calls k (trace s)"
  by (auto simp: Instance_defs Destroy_calls_def split: Instance_splits)

lemma run_trace_others:
  "run prog ks s = Inr s' \<Longrightarrow>
     Destroy_calls k (trace s') = Destroy_calls k (trace s)"
proof (induction ks arbitrary: s)
  case Nil
  then show ?case by simp
next
  case (Cons k' ks)
  obtain r s1 where
    step: "Instance prog k' s = (r, s1)" and rest: "run prog ks s1 = Inr s'"
    using run_Cons_Inr [OF Cons.prems(1)] by auto
  from Instance_trace_others [of k prog k' s] step Cons.IH [OF rest] show ?case by simp
qed

subsection \<open>Process exit\<close>

lemma exit_skip:
  "Handler k \<notin> set acts \<Longrightarrow>
     ptr (foldl (\<lambda>t a. run_exit_action prog a t) s acts) k = ptr s k \<and>
     Destroy_calls k (trace (foldl (\<lambda>t a. run_exit_action prog a t) s acts))
       = Destroy_calls k (trace s)"
proof (induction acts arbitrary: s)
  case Nil
  then show ?case by simp
next
  case (Cons a acts)
  from Cons.prems have a: "a \<noteq> Handler k" and rest: "Handler k \<notin> set acts" by auto
  have "ptr (run_exit_action prog a s) k = ptr s k \<and>
        Destroy_calls k (trace (run_exit_action prog a s)) = Destroy_calls k (trace s)"
    using a by (cases a) (auto simp: Singleton_Destroy_def Destroy_calls_def)
  with Cons.IH [OF rest, of "run_exit_action prog a s"] show ?case by simp
qed

lemma exit_handler:
  assumes "acts = as @ Handler k # bs" and "Handler k \<notin> set as" and "Handler k \<notin> set bs"
  shows "ptr (foldl (\<lambda>t a. run_exit_action prog a t) s acts) k = None \<and>
         Destroy_calls k (trace (foldl (\<lambda>t a. run_exit_action prog a t) s acts))
           = Destroy_calls k (trace s) @ [Destroy_call k (ptr s k)]"
proof -
  let ?f = "\<lambda>t a. run_exit_action prog a t"
  let ?s1 = "foldl ?f s as"
  let ?s2 = "Singleton_Destroy prog k ?s1"
  have s1: "ptr ?s1 k = ptr s k" "Destroy_calls k (trace ?s1) = Destroy_calls k (trace s)"
    using exit_skip [OF assms(2), of prog s] by simp_all
  have s2: "ptr ?s2 k = None"
    "Destroy_calls k (trace ?s2) = Destroy_calls k (trace s) @ [Destroy_call k (ptr s k)]"
    using s1 by (simp_all add: Singleton_Destroy_def Destroy_calls_def)
  have "foldl ?f s acts = foldl ?f ?s2 bs"
    using assms(1) by simp
  with exit_skip [OF assms(3), of prog ?s2] s2 show ?thesis by simp
qed

lemma exit_process_occupied:
  assumes "consistent s" and "ptr s k = Some p"
  shows "ptr (exit_process prog s) k = None \<and>
         Destroy_calls k (trace (exit_process prog s))
           = Destroy_calls k (trace s) @ [Destroy_call k (Some p)]"
proof -
  from assms have "Handler k \<in> set (exit_list s)" and d: "distinct (exit_list s)"
    by (simp_all add: consistent_def)
  then obtain as bs where split: "exit_list s = as @ Handler k # bs"
    by (auto dest: split_list)
  with d have "Handler k \<notin> set as" "Handler k \<notin> set bs" by auto
  from exit_handler [OF split this, of prog "s\<lparr>exit_list := []\<rparr>"] assms(2)
  show ?thesis by (simp add: exit_process_def)
qed

lemma handlers_of_occupied:
  assumes "consistent s" and "ptr s k = Some p"
  shows "handlers_of k (exit_list s) = [Handler k]"
proof -
  from assms have "Handler k \<in> set (exit_list s)" and d: "distinct (exit_list s)"
    by (simp_all add: consistent_def)
  then obtain as bs where split: "exit_list s = as @ Handler k # bs"
    by (auto dest: split_list)
  with d have "Handler k \<notin> set as" "Handler k \<notin> set bs" by auto
  then have "filter (\<lambda>a. a = Handler k) as = []" "filter (\<lambda>a. a = Handler k) bs = []"
    by (auto simp: filter_empty_conv)
  with split show ?thesis by (simp add: handlers_of_def)
qed

lemma exit_mtx:
  "mtx (foldl (\<lambda>t a. run_exit_action prog a t) s acts) = mtx s"
proof (induction acts arbitrary: s)
  case Nil
  then show ?case by simp
next
  case (Cons a acts)
  show ?case
    using Cons.IH [of "run_exit_action prog a s"]
    by (cases a) (auto simp: Singleton_Destroy_def)
qed

lemma exit_process_mtx:
  "mtx (exit_process prog s) = mtx s"
  by (simp add: exit_process_def exit_mtx)



lemma exit_split:
  assumes "consistent s" and "ptr s k = Some p"
  shows "Handler k \<notin> set (takeWhile (\<lambda>a. a \<noteq> Handler k) (exit_list s)) \<and>
         Handler k \<notin> set (handlers_after k s) \<and>
         exit_list s = takeWhile (\<lambda>a. a \<noteq> Handler k) (exit_list s) @ Handler k # handlers_after k s"
proof -
  from assms have "Handler k \<in> set (exit_list s)" and d: "distinct (exit_list s)"
    by (simp_all add: consistent_def)
  then obtain as bs where split: "exit_list s = as @ Handler k # bs"
    by (auto dest: split_list)
  with d have n: "Handler k \<notin> set as" "Handler k \<notin> set bs" by auto
  then have all: "\<And>x. x \<in> set as \<Longrightarrow> x \<noteq> Handler k" by auto
  have "takeWhile (\<lambda>a. a \<noteq> Handler k) (exit_list s) = as"
    using takeWhile_append2 [of as "\<lambda>a. a \<noteq> Handler k" "Handler k # bs"] all split by simp
  moreover have "dropWhile (\<lambda>a. a \<noteq> Handler k) (exit_list s) = Handler k # bs"
    using dropWhile_append2 [of as "\<lambda>a. a \<noteq> Handler k" "Handler k # bs"] all split by simp
  ultimately show ?thesis using n split by (simp add: handlers_after_def)
qed

lemma teardown_generic:
  assumes "consistent s" and "ptr s k = Some p"
  shows "ptr (before_teardown prog k s) k = Some p \<and>
         exit_process prog s
           = foldl (\<lambda>t a. run_exit_action prog a t)
               (Singleton_Destroy prog k (before_teardown prog k s)) (handlers_after k s) \<and>
         store (Singleton_Destroy prog k (before_teardown prog k s))
           = Destroy (CreationPolicy (prog k)) (Some p) (store (before_teardown prog k s))"
proof -
  let ?f = "\<lambda>t a. run_exit_action prog a t"
  let ?as = "takeWhile (\<lambda>a. a \<noteq> Handler k) (exit_list s)"
  from exit_split [OF assms] have n: "Handler k \<notin> set ?as"
    and split: "exit_list s = ?as @ Handler k # handlers_after k s" by simp_all
  from exit_skip [OF n, of prog "s\<lparr>exit_list := []\<rparr>"] assms(2)
  have p: "ptr (before_teardown prog k s) k = Some p"
    by (simp add: before_teardown_def)
  have "exit_process prog s = foldl ?f (s\<lparr>exit_list := []\<rparr>) (?as @ Handler k # handlers_after k s)"
    using split by (simp add: exit_process_def)
  then have e: "exit_process prog s
      = foldl ?f (Singleton_Destroy prog k (before_teardown prog k s)) (handlers_after k s)"
    by (simp add: before_teardown_def)
  from p e show ?thesis by (simp add: Singleton_Destroy_def)
qed

subsection \<open>The history of a slot\<close>

lemma exit_states_skip:
  "Handler k \<notin> set acts \<Longrightarrow>
     slot_history k (exit_states prog acts s) = replicate (length acts) (ptr s k) \<and>
     ptr (foldl (\<lambda>t a. run_exit_action prog a t) s acts) k = ptr s k"
proof (induction acts arbitrary: s)
  case Nil
  then show ?case by (simp add: slot_history_def)
next
  case (Cons a acts)
  from Cons.prems have a: "a \<noteq> Handler k" and rest: "Handler k \<notin> set acts" by auto
  have "ptr (run_exit_action prog a s) k = ptr s k"
    using a by (cases a) (auto simp: Singleton_Destroy_def)
  with Cons.IH [OF rest, of "run_exit_action prog a s"] show ?case
    by (simp add: slot_history_def)
qed

lemma exit_states_append:
  "exit_states prog (as @ bs) s
     = exit_states prog as s @ exit_states prog bs (foldl (\<lambda>t a. run_exit_action prog a t) s as)"
  by (induction as arbitrary: s) simp_all

lemma exit_states_handler:
  assumes "Handler k \<notin> set as" and "Handler k \<notin> set bs"
  shows "slot_history k (exit_states prog (as @ Handler k # bs) s)
           = replicate (length as) (ptr s k) @ replicate (Suc (length bs)) None"
proof -
  let ?s1 = "foldl (\<lambda>t a. run_exit_action prog a t) s as"
  let ?s2 = "Singleton_Destroy prog k ?s1"
  have "ptr ?s2 k = None" by (simp add: Singleton_Destroy_def)
  with exit_states_skip [OF assms(2), of prog ?s2]
  have "slot_history k (exit_states prog bs ?s2) = replicate (length bs) None" by simp
  with exit_states_skip [OF assms(1), of prog s] \<open>ptr ?s2 k = None\<close> show ?thesis
    by (simp add: exit_states_append slot_history_def)
qed

lemma exit_history:
  assumes "consistent s"
  shows "\<exists>b c. slot_history k (exit_states prog (exit_list s) (s\<lparr>exit_list := []\<rparr>))
                 = replicate b (ptr s k) @ replicate c None"
proof (cases "ptr s k")
  case None
  with assms have "Handler k \<notin> set (exit_list s)" by (simp add: consistent_def)
  from exit_states_skip [OF this, of prog "s\<lparr>exit_list := []\<rparr>"]
  have "slot_history k (exit_states prog (exit_list s) (s\<lparr>exit_list := []\<rparr>))
          = replicate (length (exit_list s)) (ptr s k) @ replicate 0 None" by simp
  then show ?thesis by blast
next
  case (Some p)
  with assms have "Handler k \<in> set (exit_list s)" and d: "distinct (exit_list s)"
    by (simp_all add: consistent_def)
  then obtain as bs where split: "exit_list s = as @ Handler k # bs"
    by (auto dest: split_list)
  with d have "Handler k \<notin> set as" "Handler k \<notin> set bs" by auto
  from exit_states_handler [OF this, of prog "s\<lparr>exit_list := []\<rparr>"] split
  have "slot_history k (exit_states prog (exit_list s) (s\<lparr>exit_list := []\<rparr>))
          = replicate (length as) (ptr s k) @ replicate (Suc (length bs)) None" by simp
  then show ?thesis by blast
qed

lemma rest_of_life_Nil:
  "rest_of_life prog [] s = exit_states prog (exit_list s) (s\<lparr>exit_list := []\<rparr>)"
  by (simp add: rest_of_life_def)

lemma rest_of_life_Cons:
  "rest_of_life prog (k # ks) s = [] \<or>
   rest_of_life prog (k # ks) s
     = snd (Instance prog k s) # rest_of_life prog ks (snd (Instance prog k s))"
  by (auto simp: rest_of_life_def split: prod.splits sum.splits error.splits)

lemma rest_of_life_history:
  assumes "consistent s"
  shows "(ptr s k = None \<longrightarrow>
            (\<exists>a b c p. slot_history k (rest_of_life prog ks s)
                          = replicate a None @ replicate b (Some p) @ replicate c None)) \<and>
         (\<forall>p. ptr s k = Some p \<longrightarrow>
            (\<exists>b c. slot_history k (rest_of_life prog ks s) = replicate b (Some p) @ replicate c None))"
  using assms
proof (induction ks arbitrary: s)
  case Nil
  obtain b c where e: "slot_history k (rest_of_life prog [] s) = replicate b (ptr s k) @ replicate c None"
    using exit_history [OF Nil, of k prog] by (auto simp: rest_of_life_Nil)
  show ?case
  proof (intro conjI impI allI)
    assume "ptr s k = None"
    with e have "slot_history k (rest_of_life prog [] s)
                   = replicate (b + c) None @ replicate 0 (Some 0) @ replicate 0 None"
      by (simp add: replicate_add)
    then show "\<exists>a b c p. slot_history k (rest_of_life prog [] s)
                 = replicate a None @ replicate b (Some p) @ replicate c None" by blast
  next
    fix p assume "ptr s k = Some p"
    with e show "\<exists>b c. slot_history k (rest_of_life prog [] s)
                   = replicate b (Some p) @ replicate c None" by auto
  qed
next
  case (Cons k' ks)
  let ?s1 = "snd (Instance prog k' s)"
  have c1: "consistent ?s1" using Cons.prems by (rule Instance_consistent)
  note IH = Cons.IH [OF c1]
  from rest_of_life_Cons [of prog k' ks s]
  show ?case
  proof
    assume "rest_of_life prog (k' # ks) s = []"
    then have "slot_history k (rest_of_life prog (k' # ks) s) = []" by (simp add: slot_history_def)
    then have "\<And>p. slot_history k (rest_of_life prog (k' # ks) s)
                 = replicate 0 None @ replicate 0 (Some p) @ replicate 0 None"
      "\<And>p. slot_history k (rest_of_life prog (k' # ks) s) = replicate 0 (Some p) @ replicate 0 None"
      by simp_all
    then show ?thesis by blast
  next
    assume "rest_of_life prog (k' # ks) s = ?s1 # rest_of_life prog ks ?s1"
    then have h: "slot_history k (rest_of_life prog (k' # ks) s)
                    = ptr ?s1 k # slot_history k (rest_of_life prog ks ?s1)"
      by (simp add: slot_history_def)
    show ?thesis
    proof (intro conjI impI allI)
      assume empty: "ptr s k = None"
      show "\<exists>a b c p. slot_history k (rest_of_life prog (k' # ks) s)
                 = replicate a None @ replicate b (Some p) @ replicate c None"
      proof (cases "ptr ?s1 k")
        case None
        with IH obtain a b c p where
          "slot_history k (rest_of_life prog ks ?s1)
             = replicate a None @ replicate b (Some p) @ replicate c None" by blast
        with h None have "slot_history k (rest_of_life prog (k' # ks) s)
             = replicate (Suc a) None @ replicate b (Some p) @ replicate c None" by simp
        then show ?thesis by blast
      next
        case (Some q)
        with IH obtain b c where
          "slot_history k (rest_of_life prog ks ?s1) = replicate b (Some q) @ replicate c None"
          by blast
        with h Some have "slot_history k (rest_of_life prog (k' # ks) s)
             = replicate 0 None @ replicate (Suc b) (Some q) @ replicate c None" by simp
        then show ?thesis by blast
      qed
    next
      fix p assume occ: "ptr s k = Some p"
      then have "ptr ?s1 k = Some p" by (rule Instance_keeps_occupant)
      moreover from this IH obtain b c where
        "slot_history k (rest_of_life prog ks ?s1) = replicate b (Some p) @ replicate c None"
        by blast
      ultimately have "slot_history k (rest_of_life prog (k' # ks) s)
             = replicate (Suc b) (Some p) @ replicate c None" using h by simp
      then show "\<exists>b c. slot_history k (rest_of_life prog (k' # ks) s)
                   = replicate b (Some p) @ replicate c None" by blast
    qed
  qed
qed

lemma rest_of_life_mtx:
  "mtx s = Unlocked \<Longrightarrow> \<forall>t \<in> set (rest_of_life prog ks s). mtx t = Unlocked"
proof (induction ks arbitrary: s)
  case Nil
  have "\<And>acts u. mtx u = Unlocked \<Longrightarrow> \<forall>t \<in> set (exit_states prog acts u). mtx t = Unlocked"
  proof -
    fix acts :: "'a exit_action list" and u :: "('a, 'b) process"
    show "mtx u = Unlocked \<Longrightarrow> \<forall>t \<in> set (exit_states prog acts u). mtx t = Unlocked"
    proof (induction acts arbitrary: u)
      case Nil
      then show ?case by simp
    next
      case (Cons a acts)
      have "mtx (run_exit_action prog a u) = Unlocked"
        using Cons.prems by (cases a) (simp add: Singleton_Destroy_def)
      with Cons.IH [of "run_exit_action prog a u"] show ?case by simp
    qed
  qed
  from this [of "s\<lparr>exit_list := []\<rparr>" "exit_list s"] Nil show ?case
    by (simp add: rest_of_life_Nil)
next
  case (Cons k ks)
  from rest_of_life_Cons [of prog k ks s] show ?case
  proof
    assume "rest_of_life prog (k # ks) s = []"
    then show ?thesis by simp
  next
    assume r: "rest_of_life prog (k # ks) s
                 = snd (Instance prog k s) # rest_of_life prog ks (snd (Instance prog k s))"
    have "mtx (snd (Instance prog k s)) = Unlocked"
      using Cons.prems by (auto simp: Instance_defs split: Instance_splits)
    with Cons.IH [of "snd (Instance prog k s)"] r show ?thesis by simp
  qed
qed

subsection \<open>Live occupants\<close>

lemma live_slots_init: "heap_ok h \<Longrightarrow> live_slots (init h)"
  by (simp add: live_slots_def init_def)

lemma Instance_live_slots:
  assumes "live_slots s" and "CreationPolicy (prog k) = DefaultCreation"
  shows "live_slots (snd (Instance prog k s))"
proof -
  have fresh: "\<And>k'. ptr s k' \<noteq> Some (next_addr (store s))"
    using assms(1) by (fastforce simp: live_slots_def heap_ok_def)
  show ?thesis
    using assms fresh unfolding live_slots_def heap_ok_def
    by (auto simp: Instance_defs DefaultCreation_def new_object_def split: Instance_splits)
qed

lemma run_exit_action_live_slots:
  assumes "live_slots s" and "\<forall>k. CreationPolicy (prog k) = DefaultCreation"
  shows "live_slots (run_exit_action prog a s)"
proof (cases a)
  case (Handler k)
  show ?thesis
  proof (cases "ptr s k")
    case None
    with assms Handler show ?thesis
      by (auto simp: live_slots_def heap_ok_def Singleton_Destroy_def DefaultCreation_def)
  next
    case (Some p)
    with assms(1) have "p \<in> set (live (store s))" by (simp add: live_slots_def)
    moreover have "\<And>k' q. k' \<noteq> k \<Longrightarrow> ptr s k' = Some q \<Longrightarrow> q \<noteq> p"
      using assms(1) Some unfolding live_slots_def by blast
    ultimately show ?thesis
      using assms Handler Some unfolding live_slots_def heap_ok_def
      by (auto simp: Singleton_Destroy_def DefaultCreation_def)
  qed
qed

lemma exit_states_live_slots:
  assumes "\<forall>k. CreationPolicy (prog k) = DefaultCreation"
  shows "live_slots s \<Longrightarrow> \<forall>t \<in> set (exit_states prog acts s). live_slots t"
proof (induction acts arbitrary: s)
  case Nil
  then show ?case by simp
next
  case (Cons a acts)
  have "live_slots (run_exit_action prog a s)"
    using Cons.prems assms by (rule run_exit_action_live_slots)
  with Cons.IH [of "run_exit_action prog a s"] show ?case by simp
qed

lemma rest_of_life_live_slots:
  assumes "\<forall>k. CreationPolicy (prog k) = DefaultCreation"
  shows "live_slots s \<Longrightarrow> \<forall>t \<in> set (rest_of_life prog ks s). live_slots t"
proof (induction ks arbitrary: s)
  case Nil
  have "live_slots (s\<lparr>exit_list := []\<rparr>)"
    using Nil by (simp add: live_slots_def)
  from exit_states_live_slots [OF assms this] show ?case
    by (simp add: rest_of_life_Nil)
next
  case (Cons k ks)
  let ?s1 = "snd (Instance prog k s)"
  have "live_slots ?s1"
    using Cons.prems assms by (intro Instance_live_slots) simp_all
  from Cons.IH [OF this] rest_of_life_Cons [of prog k ks s] this show ?case by auto
qed

lemma run_live_slots:
  assumes "\<forall>k. CreationPolicy (prog k) = DefaultCreation"
  shows "run prog ks s = Inr s' \<Longrightarrow> live_slots s \<Longrightarrow> live_slots s'"
proof (induction ks arbitrary: s)
  case Nil
  then show ?case by simp
next
  case (Cons k ks)
  obtain r s1 where
    step: "Instance prog k s = (r, s1)" and rest: "run prog ks s1 = Inr s'"
    using run_Cons_Inr [OF Cons.prems(1)] by auto
  have "live_slots (snd (Instance prog k s))"
    using Cons.prems(2) assms by (intro Instance_live_slots) simp_all
  with step have "live_slots s1" by simp
  with rest show ?case by (rule Cons.IH)
qed

lemma exit_fold_live_slots:
  assumes "\<forall>k. CreationPolicy (prog k) = DefaultCreation"
  shows "live_slots s \<Longrightarrow>
     live_slots (foldl (\<lambda>t a. run_exit_action prog a t) s acts) \<and>
     set (live (store (foldl (\<lambda>t a. run_exit_action prog a t) s acts))) \<subseteq> set (live (store s))"
proof (induction acts arbitrary: s)
  case Nil
  then show ?case by simp
next
  case (Cons a acts)
  have l: "live_slots (run_exit_action prog a s)"
    using Cons.prems assms by (rule run_exit_action_live_slots)
  obtain k where a: "a = Handler k" by (cases a)
  have "set (live (store (run_exit_action prog a s))) \<subseteq> set (live (store s))"
    using assms a by (cases "ptr s k") (auto simp: Singleton_Destroy_def DefaultCreation_def)
  with Cons.IH [OF l] show ?case by auto
qed

lemma teardown_DefaultCreation:
  assumes pol: "\<forall>k. CreationPolicy (prog k) = DefaultCreation"
    and ok: "heap_ok h"
    and run: "run prog ks (init h) = Inr s"
    and occ: "ptr s k = Some p"
  shows "p \<in> set (live (store s)) \<and>
         p \<notin> set (live (store (exit_process prog s))) \<and>
         \<not> corrupt (store (exit_process prog s))"
proof -
  let ?f = "\<lambda>t a. run_exit_action prog a t"
  let ?t = "before_teardown prog k s"
  let ?t2 = "Singleton_Destroy prog k ?t"
  have c: "consistent s" using run consistent_init by (rule run_consistent)
  have l: "live_slots s" using run live_slots_init [OF ok] by (rule run_live_slots [OF pol])
  then have a: "p \<in> set (live (store s))" using occ by (simp add: live_slots_def)
  have "live_slots (s\<lparr>exit_list := []\<rparr>)" using l by (simp add: live_slots_def)
  from exit_fold_live_slots [OF pol this] have lt: "live_slots ?t"
    by (simp add: before_teardown_def)
  from teardown_generic [OF c occ, of prog] have pt: "ptr ?t k = Some p"
    and e: "exit_process prog s = foldl ?f ?t2 (handlers_after k s)" by simp_all
  from lt pt have "p \<in> set (live (store ?t))" by (simp add: live_slots_def)
  with pt pol have gone: "p \<notin> set (live (store ?t2))"
    by (simp add: Singleton_Destroy_def DefaultCreation_def)
  have "live_slots ?t2"
    using run_exit_action_live_slots [OF lt pol, of "Handler k"] by simp
  from exit_fold_live_slots [OF pol this, of "handlers_after k s"] e gone
  have "p \<notin> set (live (store (exit_process prog s)))" "live_slots (exit_process prog s)"
    by auto
  with a show ?thesis by (simp add: live_slots_def heap_ok_def)
qed

subsection \<open>Two instantiations, run\<close>

lemma example_first:
  "Instance (every LoggerSingleton) ''Logger'' (init (empty_heap 4))
     = (Inr 1,
        \<lparr>ptr = (\<lambda>k. None)(''Logger'' \<mapsto> 1), mtx = Unlocked,
         exit_list = [Handler ''Logger''],
         store = \<lparr>live = [1], next_addr = 2, capacity = 4, corrupt = False\<rparr>,
         trace = [Create_call ''Logger'']\<rparr>)"
  by (simp add: Instance_defs example_defs)

lemma example_second:
  "Instance (every LoggerSingleton) ''Counter''
       \<lparr>ptr = (\<lambda>k. None)(''Logger'' \<mapsto> 1), mtx = Unlocked,
        exit_list = [Handler ''Logger''],
        store = \<lparr>live = [1], next_addr = 2, capacity = 4, corrupt = False\<rparr>,
        trace = [Create_call ''Logger'']\<rparr>
     = (Inr 2,
        \<lparr>ptr = (\<lambda>k. None)(''Logger'' \<mapsto> 1, ''Counter'' \<mapsto> 2), mtx = Unlocked,
         exit_list = [Handler ''Counter'', Handler ''Logger''],
         store = \<lparr>live = [2, 1], next_addr = 3, capacity = 4, corrupt = False\<rparr>,
         trace = [Create_call ''Logger'', Create_call ''Counter'']\<rparr>)"
  by (simp add: Instance_defs example_defs)

lemma example_run:
  "run (every LoggerSingleton) [''Logger'', ''Counter''] (init (empty_heap 4))
     = Inr \<lparr>ptr = (\<lambda>k. None)(''Logger'' \<mapsto> 1, ''Counter'' \<mapsto> 2), mtx = Unlocked,
            exit_list = [Handler ''Counter'', Handler ''Logger''],
            store = \<lparr>live = [2, 1], next_addr = 3, capacity = 4, corrupt = False\<rparr>,
            trace = [Create_call ''Logger'', Create_call ''Counter'']\<rparr>"
  by (simp only: run.simps example_first example_second prod.case sum.case)

subsection \<open>Single instance\<close>

text \<open>
  C1. Two calls of \<open>Instance\<close> on the same instantiation, before teardown, return the
  same object: once a call has returned the object \<open>p\<close>, a call made after any further
  calls of \<open>Instance\<close>, on this or on other instantiations, returns \<open>p\<close> as well, and
  leaves the process state as it found it.
\<close>

theorem Instance_same_object:
  assumes "Instance prog k s = (Inr p, s1)"
    and "run prog ks s1 = Inr s2"
  shows "Instance prog k s2 = (Inr p, s2)"
  using assms by (rule Instance_cached)

theorem Instance_same_object_witness:
  "Instance (every LoggerSingleton) ''Logger'' (init (empty_heap 4))
     = (Inr 1,
        \<lparr>ptr = (\<lambda>k. None)(''Logger'' \<mapsto> 1), mtx = Unlocked,
         exit_list = [Handler ''Logger''],
         store = \<lparr>live = [1], next_addr = 2, capacity = 4, corrupt = False\<rparr>,
         trace = [Create_call ''Logger'']\<rparr>) \<and>
   run (every LoggerSingleton) [''Counter'', ''Logger'']
       \<lparr>ptr = (\<lambda>k. None)(''Logger'' \<mapsto> 1), mtx = Unlocked,
        exit_list = [Handler ''Logger''],
        store = \<lparr>live = [1], next_addr = 2, capacity = 4, corrupt = False\<rparr>,
        trace = [Create_call ''Logger'']\<rparr>
     = Inr \<lparr>ptr = (\<lambda>k. None)(''Logger'' \<mapsto> 1, ''Counter'' \<mapsto> 2), mtx = Unlocked,
            exit_list = [Handler ''Counter'', Handler ''Logger''],
            store = \<lparr>live = [2, 1], next_addr = 3, capacity = 4, corrupt = False\<rparr>,
            trace = [Create_call ''Logger'', Create_call ''Counter'']\<rparr> \<and>
   Instance (every LoggerSingleton) ''Logger''
       \<lparr>ptr = (\<lambda>k. None)(''Logger'' \<mapsto> 1, ''Counter'' \<mapsto> 2), mtx = Unlocked,
        exit_list = [Handler ''Counter'', Handler ''Logger''],
        store = \<lparr>live = [2, 1], next_addr = 3, capacity = 4, corrupt = False\<rparr>,
        trace = [Create_call ''Logger'', Create_call ''Counter'']\<rparr>
     = (Inr 1,
        \<lparr>ptr = (\<lambda>k. None)(''Logger'' \<mapsto> 1, ''Counter'' \<mapsto> 2), mtx = Unlocked,
         exit_list = [Handler ''Counter'', Handler ''Logger''],
         store = \<lparr>live = [2, 1], next_addr = 3, capacity = 4, corrupt = False\<rparr>,
         trace = [Create_call ''Logger'', Create_call ''Counter'']\<rparr>)"
proof -
  have first: "Instance (every LoggerSingleton) ''Logger'' (init (empty_heap 4))
     = (Inr 1,
        \<lparr>ptr = (\<lambda>k. None)(''Logger'' \<mapsto> 1), mtx = Unlocked,
         exit_list = [Handler ''Logger''],
         store = \<lparr>live = [1], next_addr = 2, capacity = 4, corrupt = False\<rparr>,
         trace = [Create_call ''Logger'']\<rparr>)"
    by (simp add: Instance_defs example_defs)
  have between: "run (every LoggerSingleton) [''Counter'', ''Logger'']
       \<lparr>ptr = (\<lambda>k. None)(''Logger'' \<mapsto> 1), mtx = Unlocked,
        exit_list = [Handler ''Logger''],
        store = \<lparr>live = [1], next_addr = 2, capacity = 4, corrupt = False\<rparr>,
        trace = [Create_call ''Logger'']\<rparr>
     = Inr \<lparr>ptr = (\<lambda>k. None)(''Logger'' \<mapsto> 1, ''Counter'' \<mapsto> 2), mtx = Unlocked,
            exit_list = [Handler ''Counter'', Handler ''Logger''],
            store = \<lparr>live = [2, 1], next_addr = 3, capacity = 4, corrupt = False\<rparr>,
            trace = [Create_call ''Logger'', Create_call ''Counter'']\<rparr>"
    by (simp add: Instance_defs example_defs)
  from first between Instance_same_object [OF first between] show ?thesis
    by (intro conjI)
qed

subsection \<open>Lazy creation\<close>




subsection \<open>Failed creation\<close>

text \<open>
  C3. When \<open>Create\<close> throws in a call of \<open>Instance\<close>, the call ends with that exception,
  the slot stays empty, the store is as \<open>Create\<close> left it, no teardown handler is
  registered, and the next call invokes \<open>Create\<close> again and ends as that invocation does.
\<close>

theorem failed_Create_leaves_slot_empty:
  assumes "ThreadingModel (prog k) = MultiThreaded"
    and "mtx s = Unlocked"
    and "ptr s k = None"
    and "Create (CreationPolicy (prog k)) (store s) = (Inl e, h)"
  shows "fst (Instance prog k s) = Inl e \<and>
         ptr (snd (Instance prog k s)) k = None \<and>
         exit_list (snd (Instance prog k s)) = exit_list s \<and>
         store (snd (Instance prog k s)) = h \<and>
         fst (Instance prog k (snd (Instance prog k s))) = fst (Create (CreationPolicy (prog k)) h) \<and>
         Create_calls k (trace (snd (Instance prog k (snd (Instance prog k s)))))
           = Create_calls k (trace s) @ [Create_call k, Create_call k]"
  using assms by (auto simp: Instance_defs Create_calls_def split: Instance_splits)

theorem failed_Create_leaves_slot_empty_witness:
  "ThreadingModel (every LoggerSingleton ''Logger'') = MultiThreaded \<and>
   mtx (init (empty_heap 0) :: (string, heap) process) = Unlocked \<and>
   ptr (init (empty_heap 0) :: (string, heap) process) ''Logger'' = None \<and>
   Create (CreationPolicy (every LoggerSingleton ''Logger''))
      (store (init (empty_heap 0) :: (string, heap) process)) = (Inl ConstructionError, empty_heap 0) \<and>
   fst (Instance (every LoggerSingleton) ''Logger'' (init (empty_heap 0))) = Inl ConstructionError \<and>
   ptr (snd (Instance (every LoggerSingleton) ''Logger'' (init (empty_heap 0)))) ''Logger'' = None \<and>
   store (snd (Instance (every LoggerSingleton) ''Logger'' (init (empty_heap 0)))) = empty_heap 0 \<and>
   Create_calls ''Logger''
     (trace (snd (Instance (every LoggerSingleton) ''Logger''
        (snd (Instance (every LoggerSingleton) ''Logger'' (init (empty_heap 0)))))))
     = [Create_call ''Logger'', Create_call ''Logger'']"
proof -
  have tm: "ThreadingModel (every LoggerSingleton ''Logger'') = MultiThreaded"
    by (simp add: example_defs)
  have m: "mtx (init (empty_heap 0) :: (string, heap) process) = Unlocked"
    by (simp add: init_def)
  have empty: "ptr (init (empty_heap 0) :: (string, heap) process) ''Logger'' = None"
    by (simp add: init_def)
  have fails: "Create (CreationPolicy (every LoggerSingleton ''Logger''))
      (store (init (empty_heap 0) :: (string, heap) process)) = (Inl ConstructionError, empty_heap 0)"
    by (simp add: example_defs)
  have none: "Create_calls ''Logger'' (trace (init (empty_heap 0) :: (string, heap) process)) = []"
    by (simp add: init_def Create_calls_def)
  note w = failed_Create_leaves_slot_empty
    [of "every LoggerSingleton" "''Logger''" "init (empty_heap 0)" ConstructionError "empty_heap 0",
     OF tm m empty fails]
  show ?thesis
    using tm m empty fails w none by (simp only: simp_thms append_Nil)
qed

subsection \<open>Teardown\<close>

text \<open>
  C4. A slot occupied at the end of the run has exactly one teardown handler registered,
  and no \<open>Destroy\<close> of its creation policy is invoked before exit. Process exit runs that
  handler once: the slot still holds its occupant when the handler starts, the handler
  hands the occupant to \<open>Destroy\<close> of the creation policy, whose result is the store the
  process goes on with, and resets the slot; no handler that runs after it is the slot's.
  With \<open>DefaultCreation\<close> throughout and a sound free store at the start, the occupant is
  live until exit, released by it, and no \<open>delete\<close> is a bad one.
\<close>

theorem Destroy_exactly_once:
  assumes "run prog ks (init h) = Inr s" and "ptr s k = Some p"
  shows "handlers_of k (exit_list s) = [Handler k] \<and>
         Destroy_calls k (trace s) = [] \<and>
         ptr (before_teardown prog k s) k = Some p \<and>
         store (Singleton_Destroy prog k (before_teardown prog k s))
           = Destroy (CreationPolicy (prog k)) (Some p) (store (before_teardown prog k s)) \<and>
         exit_process prog s
           = foldl (\<lambda>t a. run_exit_action prog a t)
               (Singleton_Destroy prog k (before_teardown prog k s)) (handlers_after k s) \<and>
         Handler k \<notin> set (handlers_after k s) \<and>
         Destroy_calls k (trace (exit_process prog s)) = [Destroy_call k (Some p)] \<and>
         ptr (exit_process prog s) k = None \<and>
         ((\<forall>k'. CreationPolicy (prog' k') = DefaultCreation) \<and> heap_ok h' \<and>
          run prog' ks (init h') = Inr s' \<and> ptr s' k = Some p' \<longrightarrow>
            p' \<in> set (live (store s')) \<and>
            p' \<notin> set (live (store (exit_process prog' s'))) \<and>
            \<not> corrupt (store (exit_process prog' s')))"
proof -
  have c: "consistent s"
    using assms(1) consistent_init by (rule run_consistent)
  have "Destroy_calls k (trace (init h)) = []"
    by (simp add: init_def Destroy_calls_def)
  with run_trace_others [OF assms(1), of k] have d: "Destroy_calls k (trace s) = []" by simp
  have g: "(\<forall>k'. CreationPolicy (prog' k') = DefaultCreation) \<and> heap_ok h' \<and>
          run prog' ks (init h') = Inr s' \<and> ptr s' k = Some p' \<longrightarrow>
            p' \<in> set (live (store s')) \<and>
            p' \<notin> set (live (store (exit_process prog' s'))) \<and>
            \<not> corrupt (store (exit_process prog' s'))"
    using teardown_DefaultCreation [of prog' h' ks s' k p'] by blast
  from exit_process_occupied [OF c assms(2), of prog] handlers_of_occupied [OF c assms(2)]
    teardown_generic [OF c assms(2), of prog] exit_split [OF c assms(2)] d g
  show ?thesis by simp
qed

theorem Destroy_exactly_once_witness:
  "run (every LoggerSingleton) [''Logger'', ''Counter''] (init (empty_heap 4))
     = Inr \<lparr>ptr = (\<lambda>k. None)(''Logger'' \<mapsto> 1, ''Counter'' \<mapsto> 2), mtx = Unlocked,
            exit_list = [Handler ''Counter'', Handler ''Logger''],
            store = \<lparr>live = [2, 1], next_addr = 3, capacity = 4, corrupt = False\<rparr>,
            trace = [Create_call ''Logger'', Create_call ''Counter'']\<rparr> \<and>
   (\<forall>k'. CreationPolicy (every LoggerSingleton (k' :: string)) = DefaultCreation) \<and>
   heap_ok (empty_heap 4) \<and>
   exit_process (every LoggerSingleton)
       \<lparr>ptr = (\<lambda>k. None)(''Logger'' \<mapsto> 1, ''Counter'' \<mapsto> 2), mtx = Unlocked,
        exit_list = [Handler ''Counter'', Handler ''Logger''],
        store = \<lparr>live = [2, 1], next_addr = 3, capacity = 4, corrupt = False\<rparr>,
        trace = [Create_call ''Logger'', Create_call ''Counter'']\<rparr>
     = \<lparr>ptr = (\<lambda>k. None), mtx = Unlocked, exit_list = [],
        store = \<lparr>live = [], next_addr = 3, capacity = 4, corrupt = False\<rparr>,
        trace = [Create_call ''Logger'', Create_call ''Counter'',
                 Destroy_call ''Counter'' (Some 2), Destroy_call ''Logger'' (Some 1)]\<rparr> \<and>
   Destroy_calls ''Logger''
       [Create_call ''Logger'', Create_call ''Counter'',
        Destroy_call ''Counter'' (Some 2), Destroy_call ''Logger'' (Some 1)]
     = [Destroy_call ''Logger'' (Some 1)] \<and>
   1 \<notin> set (live (store (exit_process (every LoggerSingleton)
       \<lparr>ptr = (\<lambda>k. None)(''Logger'' \<mapsto> 1, ''Counter'' \<mapsto> 2), mtx = Unlocked,
        exit_list = [Handler ''Counter'', Handler ''Logger''],
        store = \<lparr>live = [2, 1], next_addr = 3, capacity = 4, corrupt = False\<rparr>,
        trace = [Create_call ''Logger'', Create_call ''Counter'']\<rparr>)))"
proof -
  let ?P = "every LoggerSingleton :: string \<Rightarrow> heap singleton"
  let ?s = "\<lparr>ptr = (\<lambda>k. None)(''Logger'' \<mapsto> 1, ''Counter'' \<mapsto> 2), mtx = Unlocked,
            exit_list = [Handler ''Counter'', Handler ''Logger''],
            store = \<lparr>live = [2, 1], next_addr = 3, capacity = 4, corrupt = False\<rparr>,
            trace = [Create_call ''Logger'', Create_call ''Counter'']\<rparr> :: (string, heap) process"
  have r: "run ?P [''Logger'', ''Counter''] (init (empty_heap 4)) = Inr ?s"
    by (rule example_run)
  have p: "ptr ?s ''Logger'' = Some 1" by simp
  have pol: "\<forall>k'. CreationPolicy (?P k') = DefaultCreation"
    by (simp add: every_def LoggerSingleton_def)
  have ok: "heap_ok (empty_heap 4)"
    by (simp add: heap_ok_def empty_heap_def)
  have e: "exit_process ?P ?s
     = \<lparr>ptr = (\<lambda>k. None), mtx = Unlocked, exit_list = [],
        store = \<lparr>live = [], next_addr = 3, capacity = 4, corrupt = False\<rparr>,
        trace = [Create_call ''Logger'', Create_call ''Counter'',
                 Destroy_call ''Counter'' (Some 2), Destroy_call ''Logger'' (Some 1)]\<rparr>"
    by (simp add: exit_process_def Singleton_Destroy_def every_def LoggerSingleton_def
        DefaultCreation_def)
  note w = Destroy_exactly_once
    [of ?P "[''Logger'', ''Counter'']" "empty_heap 4" ?s "''Logger''" 1 ?P "empty_heap 4" ?s 1,
     OF r p]
  from w pol ok r p have gone: "1 \<notin> set (live (store (exit_process ?P ?s)))" by blast
  from w have d: "Destroy_calls ''Logger'' (trace (exit_process ?P ?s))
     = [Destroy_call ''Logger'' (Some 1)]" by blast
  have d': "Destroy_calls ''Logger''
       [Create_call ''Logger'', Create_call ''Counter'',
        Destroy_call ''Counter'' (Some 2), Destroy_call ''Logger'' (Some 1)]
     = [Destroy_call ''Logger'' (Some 1)]"
    using d unfolding e by simp
  from r pol ok e d' gone show ?thesis by (simp only: simp_thms)
qed

subsection \<open>The phases of a slot\<close>

text \<open>
  C5. Over a process lifetime (static initialisation, a run of calls of \<open>Instance\<close>, normal
  exit) a slot is empty, then holds one and the same object, then is empty again: it is
  filled at most once and cleared at most once, and nothing happens after the clearing.
  With \<open>DefaultCreation\<close> throughout and a sound free store at the start, the occupant
  of a slot is a live object in every state of the lifetime, and no \<open>delete\<close> is a bad one.
\<close>

theorem slot_phases:
  "(\<exists>a b c p. slot_history k (lifetime prog ks h)
      = replicate (Suc a) None @ replicate b (Some p) @ replicate c None) \<and>
   ((\<forall>k'. CreationPolicy (prog' k') = DefaultCreation) \<and> heap_ok h' \<longrightarrow>
      (\<forall>t \<in> set (lifetime prog' ks h').
         \<not> corrupt (store t) \<and> (\<forall>p. ptr t k = Some p \<longrightarrow> p \<in> set (live (store t)))))"
proof
  have "lifetime prog ks h = init h # rest_of_life prog ks (init h)"
    by (simp add: lifetime_def)
  moreover have "ptr (init h) k = None" by (simp add: init_def)
  moreover from rest_of_life_history [of "init h" k prog ks, OF consistent_init] this
  obtain a b c p where
    "slot_history k (rest_of_life prog ks (init h))
       = replicate a None @ replicate b (Some p) @ replicate c None" by blast
  ultimately have "slot_history k (lifetime prog ks h)
     = replicate (Suc a) None @ replicate b (Some p) @ replicate c None"
    by (simp add: slot_history_def)
  then show "\<exists>a b c p. slot_history k (lifetime prog ks h)
     = replicate (Suc a) None @ replicate b (Some p) @ replicate c None" by blast
next
  show "(\<forall>k'. CreationPolicy (prog' k') = DefaultCreation) \<and> heap_ok h' \<longrightarrow>
      (\<forall>t \<in> set (lifetime prog' ks h').
         \<not> corrupt (store t) \<and> (\<forall>p. ptr t k = Some p \<longrightarrow> p \<in> set (live (store t))))"
  proof (intro impI ballI)
    fix t
    assume a: "(\<forall>k'. CreationPolicy (prog' k') = DefaultCreation) \<and> heap_ok h'"
      and t: "t \<in> set (lifetime prog' ks h')"
    have l: "lifetime prog' ks h' = init h' # rest_of_life prog' ks (init h')"
      by (simp add: lifetime_def)
    from a have i: "live_slots (init h' :: ('a, heap) process)" by (simp add: live_slots_init)
    from a rest_of_life_live_slots [OF _ i, of prog' ks] i t l
    have "live_slots t" by auto
    then show "\<not> corrupt (store t) \<and> (\<forall>p. ptr t k = Some p \<longrightarrow> p \<in> set (live (store t)))"
      by (simp add: live_slots_def heap_ok_def)
  qed
qed

theorem slot_phases_witness:
  "(\<forall>k'. CreationPolicy (every LoggerSingleton (k' :: string)) = DefaultCreation) \<and>
   heap_ok (empty_heap 4) \<and>
   slot_history ''Logger''
       (lifetime (every LoggerSingleton) [''Logger'', ''Counter'', ''Logger''] (empty_heap 4))
     = [None, Some 1, Some 1, Some 1, Some 1, None] \<and>
   snd (Instance (every LoggerSingleton) ''Logger'' (init (empty_heap 4)))
     \<in> set (lifetime (every LoggerSingleton) [''Logger'', ''Counter'', ''Logger''] (empty_heap 4)) \<and>
   ptr (snd (Instance (every LoggerSingleton) ''Logger'' (init (empty_heap 4)))) ''Logger'' = Some 1 \<and>
   1 \<in> set (live (store (snd (Instance (every LoggerSingleton) ''Logger'' (init (empty_heap 4))))))"
proof -
  let ?P = "every LoggerSingleton :: string \<Rightarrow> heap singleton"
  let ?ks = "[''Logger'', ''Counter'', ''Logger'']"
  let ?t = "snd (Instance ?P ''Logger'' (init (empty_heap 4)))"
  have pol: "\<forall>k'. CreationPolicy (?P k') = DefaultCreation"
    by (simp add: every_def LoggerSingleton_def)
  have ok: "heap_ok (empty_heap 4)"
    by (simp add: heap_ok_def empty_heap_def)
  have hist: "slot_history ''Logger'' (lifetime ?P ?ks (empty_heap 4))
     = [None, Some 1, Some 1, Some 1, Some 1, None]"
    by (simp add: lifetime_def rest_of_life_def slot_history_def Instance_defs example_defs
        Singleton_Destroy_def)
  have mem: "?t \<in> set (lifetime ?P ?ks (empty_heap 4))"
    by (simp add: lifetime_def rest_of_life_def example_first)
  have occ: "ptr ?t ''Logger'' = Some 1"
    by (simp add: example_first)
  from slot_phases [of "''Logger''" ?P ?ks "empty_heap 4" ?P "empty_heap 4"] pol ok mem occ
  have "1 \<in> set (live (store ?t))" by blast
  with pol ok hist mem occ show ?thesis by (simp only: simp_thms)
qed

subsection \<open>The mutex of \<open>MultiThreaded\<close>\<close>

text \<open>
  C6, as stated. The mutex can be locked before any call of \<open>Instance\<close>: no call creates
  it. And two distinct \<open>MultiThreaded\<close> instantiations, both with their object created,
  take their guards on one and the same mutex.
\<close>

theorem mutex_per_slot_counterexample:
  "MultiThreaded_Lock MultiThreaded_mtx (init (empty_heap 4) :: (string, heap) process)
     = Inr \<lparr>ptr = (\<lambda>k. None), mtx = Locked, exit_list = [],
            store = \<lparr>live = [], next_addr = 1, capacity = 4, corrupt = False\<rparr>, trace = []\<rparr> \<and>
   ''Logger'' \<noteq> ''Counter'' \<and>
   ThreadingModel (every LoggerSingleton ''Logger'') = MultiThreaded \<and>
   ThreadingModel (every LoggerSingleton ''Counter'') = MultiThreaded \<and>
   run (every LoggerSingleton) [''Logger'', ''Counter''] (init (empty_heap 4))
     = Inr \<lparr>ptr = (\<lambda>k. None)(''Logger'' \<mapsto> 1, ''Counter'' \<mapsto> 2), mtx = Unlocked,
            exit_list = [Handler ''Counter'', Handler ''Logger''],
            store = \<lparr>live = [2, 1], next_addr = 3, capacity = 4, corrupt = False\<rparr>,
            trace = [Create_call ''Logger'', Create_call ''Counter'']\<rparr> \<and>
   map_sum id fst (GetMutexIfAny (ThreadingModel (every LoggerSingleton ''Logger''))
       (init (empty_heap 4) :: (string, heap) process))
     = map_sum id fst (GetMutexIfAny (ThreadingModel (every LoggerSingleton ''Counter''))
       (init (empty_heap 4) :: (string, heap) process))"
proof -
  have "MultiThreaded_Lock MultiThreaded_mtx (init (empty_heap 4) :: (string, heap) process)
     = Inr \<lparr>ptr = (\<lambda>k. None), mtx = Locked, exit_list = [],
            store = \<lparr>live = [], next_addr = 1, capacity = 4, corrupt = False\<rparr>, trace = []\<rparr>"
    by (simp add: MultiThreaded_Lock_def init_def empty_heap_def)
  moreover have "ThreadingModel (every LoggerSingleton ''Logger'') = MultiThreaded"
    "ThreadingModel (every LoggerSingleton ''Counter'') = MultiThreaded"
    by (simp_all add: every_def LoggerSingleton_def)
  moreover have "''Logger'' \<noteq> ''Counter''" by simp
  ultimately show ?thesis using example_run by (simp only: simp_thms)
qed

text \<open>
  C6, amended. The mutex is one for the whole process, the local static of
  \<open>MultiThreaded::GetMutex\<close>: it is there, unlocked, at process start, before any call;
  \<open>GetMutex\<close> returns it and changes nothing; \<open>GetMutexIfAny\<close> gives it to every
  \<open>MultiThreaded\<close> instantiation, so that while it is held no \<open>MultiThreaded\<close>
  instantiation gets through \<open>Instance\<close>; and in every state of a lifetime, after each
  call of \<open>Instance\<close> and after each teardown handler, it is still there to be locked.
\<close>

theorem mutex_one_per_process:
  fixes prog :: "'k \<Rightarrow> 'h singleton" and s :: "('k, 'h) process"
  shows "MultiThreaded_Lock MultiThreaded_mtx (init h :: ('k, 'h) process)
           = Inr ((init h)\<lparr>mtx := Locked\<rparr>) \<and>
         GetMutex s = (MultiThreaded_mtx, s) \<and>
         (ThreadingModel (prog k) = MultiThreaded \<and> ThreadingModel (prog k') = MultiThreaded \<longrightarrow>
            GetMutexIfAny (ThreadingModel (prog k)) s = Inr (MultiThreaded_mtx, s) \<and>
            GetMutexIfAny (ThreadingModel (prog k')) s = Inr (MultiThreaded_mtx, s)) \<and>
         (mtx s = Locked \<and> ThreadingModel (prog k) = MultiThreaded \<longrightarrow>
            Instance prog k s = (Inl LockError, s)) \<and>
         (\<forall>t \<in> set (lifetime prog ks h).
            MultiThreaded_Lock MultiThreaded_mtx t = Inr (t\<lparr>mtx := Locked\<rparr>))"
proof -
  have i: "mtx (init h :: ('k, 'h) process) = Unlocked" by (simp add: init_def)
  have b: "mtx s = Locked \<and> ThreadingModel (prog k) = MultiThreaded \<longrightarrow>
            Instance prog k s = (Inl LockError, s)"
    by (simp add: Instance_defs)
  have "\<forall>t \<in> set (lifetime prog ks h). mtx t = Unlocked"
    using rest_of_life_mtx [OF i, of prog ks] i by (simp add: lifetime_def)
  then have "\<forall>t \<in> set (lifetime prog ks h).
            MultiThreaded_Lock MultiThreaded_mtx t = Inr (t\<lparr>mtx := Locked\<rparr>)"
    by (simp add: MultiThreaded_Lock_def)
  with i b show ?thesis
    by (simp add: MultiThreaded_Lock_def GetMutex_def GetMutexIfAny_def)
qed

theorem mutex_one_per_process_witness:
  "ThreadingModel (every LoggerSingleton ''Logger'') = MultiThreaded \<and>
   ThreadingModel (every LoggerSingleton ''Counter'') = MultiThreaded \<and>
   GetMutexIfAny (ThreadingModel (every LoggerSingleton ''Logger''))
       (init (empty_heap 4) :: (string, heap) process)
     = Inr (MultiThreaded_mtx, init (empty_heap 4)) \<and>
   GetMutexIfAny (ThreadingModel (every LoggerSingleton ''Counter''))
       (init (empty_heap 4) :: (string, heap) process)
     = Inr (MultiThreaded_mtx, init (empty_heap 4)) \<and>
   snd (Instance (every LoggerSingleton) ''Logger'' (init (empty_heap 4)))
     \<in> set (lifetime (every LoggerSingleton) [''Logger'', ''Counter''] (empty_heap 4)) \<and>
   MultiThreaded_Lock MultiThreaded_mtx
       (snd (Instance (every LoggerSingleton) ''Logger'' (init (empty_heap 4))))
     = Inr ((snd (Instance (every LoggerSingleton) ''Logger'' (init (empty_heap 4))))
              \<lparr>mtx := Locked\<rparr>)"
proof -
  let ?P = "every LoggerSingleton :: string \<Rightarrow> heap singleton"
  let ?t = "snd (Instance ?P ''Logger'' (init (empty_heap 4)))"
  have tm: "ThreadingModel (?P ''Logger'') = MultiThreaded"
    "ThreadingModel (?P ''Counter'') = MultiThreaded"
    by (simp_all add: every_def LoggerSingleton_def)
  have mem: "?t \<in> set (lifetime ?P [''Logger'', ''Counter''] (empty_heap 4))"
    by (simp add: lifetime_def rest_of_life_def example_first)
  note w = mutex_one_per_process
    [of "empty_heap 4" "init (empty_heap 4)" ?P "''Logger''" "''Counter''" "[''Logger'', ''Counter'']"]
  let ?i = "init (empty_heap 4) :: (string, heap) process"
  from w tm have a: "GetMutexIfAny (ThreadingModel (?P ''Logger'')) ?i = Inr (MultiThreaded_mtx, ?i)"
    "GetMutexIfAny (ThreadingModel (?P ''Counter'')) ?i = Inr (MultiThreaded_mtx, ?i)"
    by simp_all
  from w have "\<forall>t \<in> set (lifetime ?P [''Logger'', ''Counter''] (empty_heap 4)).
      MultiThreaded_Lock MultiThreaded_mtx t = Inr (t\<lparr>mtx := Locked\<rparr>)"
    by (elim conjE)
  from bspec [OF this mem]
  have b: "MultiThreaded_Lock MultiThreaded_mtx ?t = Inr (?t\<lparr>mtx := Locked\<rparr>)" .
  from tm a mem b show ?thesis by (simp only: simp_thms)
qed

subsection \<open>Independence of instantiations\<close>

text \<open>
  C7. A call of \<open>Instance\<close> on one instantiation leaves every other instantiation as it
  was: its pointer, its registered teardown handlers, and the calls made to its creation
  policy.
\<close>

theorem Instance_frame:
  assumes "k' \<noteq> k"
  shows "ptr (snd (Instance prog k s)) k' = ptr s k' \<and>
         handlers_of k' (exit_list (snd (Instance prog k s))) = handlers_of k' (exit_list s) \<and>
         events_of k' (trace (snd (Instance prog k s))) = events_of k' (trace s)"
  using assms by (auto simp: Instance_defs handlers_of_def events_of_def split: Instance_splits)

theorem Instance_frame_witness:
  "''Counter'' \<noteq> ''Logger'' \<and>
   ptr (snd (Instance (every LoggerSingleton) ''Logger'' (init (empty_heap 4)))) ''Logger'' = Some 1 \<and>
   ptr (snd (Instance (every LoggerSingleton) ''Logger'' (init (empty_heap 4)))) ''Counter'' = None \<and>
   handlers_of ''Counter''
     (exit_list (snd (Instance (every LoggerSingleton) ''Logger'' (init (empty_heap 4))))) = [] \<and>
   events_of ''Counter''
     (trace (snd (Instance (every LoggerSingleton) ''Logger'' (init (empty_heap 4))))) = []"
proof -
  have ne: "''Counter'' \<noteq> ''Logger''" by simp
  have here: "ptr (snd (Instance (every LoggerSingleton) ''Logger'' (init (empty_heap 4)))) ''Logger''
                = Some 1"
    by (simp add: Instance_defs example_defs)
  from Instance_frame [OF ne, of "every LoggerSingleton" "init (empty_heap 4)"] ne here
  show ?thesis by (simp add: init_def handlers_of_def events_of_def)
qed

subsection \<open>The guard of \<open>SingleThreaded\<close>\<close>

text \<open>
  C8. With the \<open>SingleThreaded\<close> model, \<open>Instance\<close> evaluates \<open>GetMutexIfAny()\<close> to
  produce the argument of the guard, and that is an indirection through a null pointer:
  the call does not reach the check of \<open>ptr_\<close>.
\<close>

theorem SingleThreaded_null_dereference:
  "GetMutexIfAny SingleThreaded (init (empty_heap 1) :: (string, heap) process) = Inl NullDereference \<and>
   Instance (every Singleton_default) ''Logger'' (init (empty_heap 1))
     = (Inl NullDereference, init (empty_heap 1))"
  by (simp add: Instance_def GetMutexIfAny_def every_def Singleton_default_def)

subsection \<open>Teardown of an empty slot\<close>

text \<open>
  C10. \<open>Singleton::Destroy\<close> on an empty slot, with \<open>DefaultCreation\<close>: \<open>delete\<close> of the
  null pointer leaves the free store as it is, and the slot stays empty; only the log of
  calls grows.
\<close>

theorem Destroy_on_empty_slot:
  assumes "ptr s k = None" and "CreationPolicy (prog k) = DefaultCreation"
  shows "Destroy DefaultCreation None (store s) = store s \<and>
         Singleton_Destroy prog k s = s\<lparr>trace := trace s @ [Destroy_call k None]\<rparr> \<and>
         ptr (Singleton_Destroy prog k s) k = None"
proof -
  have "(ptr s)(k := None) = ptr s"
    using assms(1) by (simp add: fun_upd_idem)
  then show ?thesis
    using assms by (simp add: Singleton_Destroy_def DefaultCreation_def)
qed

theorem Destroy_on_empty_slot_witness:
  "ptr (init (empty_heap 4) :: (string, heap) process) ''Logger'' = None \<and>
   CreationPolicy (every LoggerSingleton ''Logger'') = DefaultCreation \<and>
   Singleton_Destroy (every LoggerSingleton) ''Logger'' (init (empty_heap 4))
     = \<lparr>ptr = (\<lambda>k. None), mtx = Unlocked, exit_list = [],
        store = \<lparr>live = [], next_addr = 1, capacity = 4, corrupt = False\<rparr>,
        trace = [Destroy_call ''Logger'' None]\<rparr>"
proof -
  have empty: "ptr (init (empty_heap 4) :: (string, heap) process) ''Logger'' = None"
    by (simp add: init_def)
  have pol: "CreationPolicy (every LoggerSingleton ''Logger'') = DefaultCreation"
    by (simp add: every_def LoggerSingleton_def)
  note w = Destroy_on_empty_slot
    [of "init (empty_heap 4)" "''Logger''" "every LoggerSingleton", OF empty pol]
  have "Singleton_Destroy (every LoggerSingleton) ''Logger'' (init (empty_heap 4))
     = \<lparr>ptr = (\<lambda>k. None), mtx = Unlocked, exit_list = [],
        store = \<lparr>live = [], next_addr = 1, capacity = 4, corrupt = False\<rparr>,
        trace = [Destroy_call ''Logger'' None]\<rparr>"
    using w by (simp add: init_def empty_heap_def)
  with empty pol show ?thesis by (simp only: simp_thms)
qed

end
